theory Spec2Isabelle
  imports Main
begin

section \<open>Bingo card validator: a model of \<^verbatim>\<open>app.py\<close>\<close>

text \<open>
  The development embeds the validation logic of \<^verbatim>\<open>app.py\<close>: the tokenizer
  \<^verbatim>\<open>parse_numbers\<close>, the per-card checker \<^verbatim>\<open>validate_card\<close>, the table parser
  \<^verbatim>\<open>parse_text_table\<close> and the part of the request handler \<^verbatim>\<open>validate\<close> that
  computes the per-card results and the duplicate groups.

  Conventions. A Python \<^verbatim>\<open>str\<close> is a \<^typ>\<open>string\<close>, one \<^typ>\<open>char\<close> per code point;
  the model therefore covers texts whose code points are below 256. Python's integers are
  \<^typ>\<open>int\<close>. A token is an \<^typ>\<open>int option\<close>, \<^term>\<open>None\<close> being the marker that
  \<^verbatim>\<open>parse_numbers\<close> stores for a fragment that \<^verbatim>\<open>int\<close> rejects.
\<close>

subsection \<open>Python's string primitives\<close>

text \<open>
  \<^verbatim>\<open>str.isspace\<close>, \<^verbatim>\<open>str.strip\<close> and the class \<^verbatim>\<open>\s\<close> of \<^verbatim>\<open>re\<close> agree on
  what white space is. Below 256 these are the code points 9 to 13, 28 to 32, 133 and 160.
\<close>

definition isspace :: "char \<Rightarrow> bool" where
  "isspace c =
     (let k = (of_char c :: nat)
      in (9 \<le> k \<and> k \<le> 13) \<or> (28 \<le> k \<and> k \<le> 32) \<or> k = 133 \<or> k = 160)"

definition strip :: "string \<Rightarrow> string" where
  "strip s = rev (dropWhile isspace (rev (dropWhile isspace s)))"

text \<open>
  \<^verbatim>\<open>re.split\<close> with a pattern \<^verbatim>\<open>[...]+\<close>: the text is cut at every maximal run of
  characters of the class \<open>d\<close>; a run at the very start or end leaves an empty piece there,
  and a text without any such character comes back as one piece.
\<close>

function re_split :: "(char \<Rightarrow> bool) \<Rightarrow> string \<Rightarrow> string list" where
  "re_split d s =
     (let piece = takeWhile (\<lambda>c. \<not> d c) s;
          rest = dropWhile (\<lambda>c. \<not> d c) s
      in if rest = [] then [piece] else piece # re_split d (dropWhile d rest))"
  by pat_completeness auto
termination
proof (relation "measure (\<lambda>(d, s). length s)")
  show "wf (measure (\<lambda>(d, s). length s))"
    by simp
next
  fix d :: "char \<Rightarrow> bool" and s piece rest :: string
  assume rest: "rest = dropWhile (\<lambda>c. \<not> d c) s" and ne: "rest \<noteq> []"
  from ne obtain c cs where cs: "rest = c # cs"
    by (cases rest) auto
  with rest have "d c"
    by (metis hd_dropWhile list.sel(1) ne)
  then have "length (dropWhile d rest) \<le> length cs"
    by (simp add: cs length_dropWhile_le)
  moreover have "length rest \<le> length s"
    by (simp add: rest length_dropWhile_le)
  ultimately have "length (dropWhile d rest) < length s"
    by (simp add: cs)
  then show "((d, dropWhile d rest), (d, s)) \<in> measure (\<lambda>(d, s). length s)"
    by simp
qed

declare re_split.simps [simp del]

text \<open>
  \<^verbatim>\<open>str.splitlines\<close>: a line ends at a line boundary, which is not part of the line; the
  pair carriage return, line feed is one boundary; a last line without a boundary is kept
  unless it is empty. Below 256 the boundaries are 10 to 13, 28, 29, 30 and 133.
\<close>

definition is_linebreak :: "char \<Rightarrow> bool" where
  "is_linebreak c =
     (let k = (of_char c :: nat)
      in (10 \<le> k \<and> k \<le> 13) \<or> (28 \<le> k \<and> k \<le> 30) \<or> k = 133)"

fun splitlines_from :: "string \<Rightarrow> string \<Rightarrow> string list" where
  "splitlines_from cur [] = (if cur = [] then [] else [cur])"
| "splitlines_from cur [c] =
     (if is_linebreak c then [cur] else [cur @ [c]])"
| "splitlines_from cur (c # c' # cs) =
     (if is_linebreak c
      then (if c = CHR 0x0D \<and> c' = CHR 0x0A
            then cur # splitlines_from [] cs
            else cur # splitlines_from [] (c' # cs))
      else splitlines_from (cur @ [c]) (c' # cs))"

definition splitlines :: "string \<Rightarrow> string list" where
  "splitlines s = splitlines_from [] s"

text \<open>\<^verbatim>\<open>sep.join(xs)\<close>.\<close>

fun join :: "string \<Rightarrow> string list \<Rightarrow> string" where
  "join sep [] = []"
| "join sep [x] = x"
| "join sep (x # y # ys) = x @ sep @ join sep (y # ys)"

text \<open>
  \<^verbatim>\<open>str(n)\<close> for an integer, as the f-strings of the messages print it: decimal digits, a
  minus sign before a negative number. (Python refuses to print an integer of more digits
  than the limit named below; the handler never holds one, since every integer it prints
  was read by \<^verbatim>\<open>int\<close> within that limit.)
\<close>

definition digit_char :: "nat \<Rightarrow> char" where
  "digit_char k = char_of (48 + k)"

fun str_nat :: "nat \<Rightarrow> string" where
  "str_nat n = (if n < 10 then [digit_char n] else str_nat (n div 10) @ [digit_char (n mod 10)])"

declare str_nat.simps [simp del]

definition str_int :: "int \<Rightarrow> string" where
  "str_int v = (if v < 0 then CHR ''-'' # str_nat (nat (- v)) else str_nat (nat v))"

text \<open>
  \<^verbatim>\<open>int(p)\<close> on a text without white space: an optional sign, then decimal digits, where
  single underscores may stand between two digits. Anything else raises \<^verbatim>\<open>ValueError\<close>.
  So does a numeral of more digits than the interpreter's limit on the conversion of
  integer strings; sign and underscores do not count, leading zeros do. The limit can be
  configured; \<^verbatim>\<open>app.py\<close> leaves it at its default, 4300.
\<close>

definition int_max_str_digits :: nat where
  "int_max_str_digits = 4300"

datatype py_error = ValueError

definition is_digit :: "char \<Rightarrow> bool" where
  "is_digit c = (let k = (of_char c :: nat) in 48 \<le> k \<and> k \<le> 57)"

definition digit_val :: "char \<Rightarrow> nat" where
  "digit_val c = of_char c - 48"

fun digits_from :: "nat \<Rightarrow> string \<Rightarrow> py_error + nat" where
  "digits_from acc [] = Inr acc"
| "digits_from acc [c] =
     (if is_digit c then Inr (acc * 10 + digit_val c) else Inl ValueError)"
| "digits_from acc (c # c' # cs) =
     (if is_digit c then digits_from (acc * 10 + digit_val c) (c' # cs)
      else if c = CHR ''_'' \<and> is_digit c' then digits_from (acc * 10 + digit_val c') cs
      else Inl ValueError)"

definition py_nat :: "string \<Rightarrow> py_error + nat" where
  "py_nat s =
     (case s of
        [] \<Rightarrow> Inl ValueError
      | c # cs \<Rightarrow>
          if is_digit c
          then (if int_max_str_digits < length (filter is_digit s) then Inl ValueError
                else digits_from (digit_val c) cs)
          else Inl ValueError)"

definition py_int :: "string \<Rightarrow> py_error + int" where
  "py_int s =
     (case s of
        [] \<Rightarrow> Inl ValueError
      | c # cs \<Rightarrow>
          if c = CHR ''-'' then map_sum id (\<lambda>n. - int n) (py_nat cs)
          else if c = CHR ''+'' then map_sum id int (py_nat cs)
          else map_sum id int (py_nat s))"

subsection \<open>The tokenizer: \<^verbatim>\<open>parse_numbers\<close>\<close>

type_synonym token = "int option"

definition is_delim :: "char \<Rightarrow> bool" where
  "is_delim c = (c = CHR '','' \<or> isspace c)"

text \<open>One turn of the loop over \<^verbatim>\<open>parts\<close>: an empty piece is passed over, a
  \<^verbatim>\<open>ValueError\<close> of \<^verbatim>\<open>int\<close> is caught and recorded as \<^term>\<open>None\<close>.\<close>

definition numbers_step :: "token list \<Rightarrow> string \<Rightarrow> token list" where
  "numbers_step numbers p =
     (if p = [] then numbers
      else (case py_int p of
              Inr v \<Rightarrow> numbers @ [Some v]
            | Inl ValueError \<Rightarrow> numbers @ [None]))"

definition parse_numbers :: "string \<Rightarrow> token list" where
  "parse_numbers cell =
     (if cell = [] \<or> strip cell = [] then []
      else foldl numbers_step [] (re_split is_delim (strip cell)))"

subsection \<open>The card checker: \<^verbatim>\<open>validate_card\<close>\<close>

text \<open>
  The source collects its errors as formatted texts. The model keeps each error as a value
  and \<open>render\<close> is the f-string that the source appends; \<open>validate_card\<close> returns the
  texts. \<open>err_col\<close> is the column name that an error carries.
\<close>

datatype verror =
    LengthErr (err_col: string) nat
  | NonNumeric (err_col: string)
  | CenterErr (err_col: string) int
  | RangeErr (err_col: string) int int int
  | DupErr (err_col: string) int

text \<open>The non-breaking hyphen (code point 8209) of the source's \<^verbatim>\<open>non-numeric\<close> is
  written as the three bytes of its UTF-8 form.\<close>

fun render :: "verror \<Rightarrow> string" where
  "render (LengthErr col_name k) =
     col_name @ '': expected 5 numbers, got '' @ str_nat k"
| "render (NonNumeric col_name) =
     col_name @ '': non'' @ [CHR 0xE2, CHR 0x80, CHR 0x91] @ ''numeric value''"
| "render (CenterErr col_name num) =
     col_name @ '' center should be 0, got '' @ str_int num"
| "render (RangeErr col_name num low high) =
     col_name @ '': '' @ str_int num @ '' out of range ('' @ str_int low @ ''-''
       @ str_int high @ '')''"
| "render (DupErr col_name num) =
     col_name @ '': duplicate number '' @ str_int num"

type_synonym column = "string \<times> token list \<times> int \<times> int"

text \<open>The body of the loop over \<^verbatim>\<open>enumerate(numbers)\<close>; the state is the list
  \<^verbatim>\<open>errors\<close> and the set \<^verbatim>\<open>seen\<close>.\<close>

fun token_step ::
  "string \<Rightarrow> int \<Rightarrow> int \<Rightarrow> verror list \<times> int set \<Rightarrow> nat \<times> token \<Rightarrow> verror list \<times> int set"
where
  "token_step col_name low high (errors, seen) (pos, None) =
     (errors @ [NonNumeric col_name], seen)"
| "token_step col_name low high (errors, seen) (pos, Some num) =
     (if col_name = ''N'' \<and> pos = 2
      then (if num \<noteq> 0 then (errors @ [CenterErr col_name num], seen) else (errors, seen))
      else
        (let errors1 = (if \<not> (low \<le> num \<and> num \<le> high)
                        then errors @ [RangeErr col_name num low high] else errors);
             errors2 = (if num \<in> seen then errors1 @ [DupErr col_name num] else errors1)
         in (errors2, insert num seen)))"

text \<open>The body of the loop over \<^verbatim>\<open>columns\<close>; the state is \<^verbatim>\<open>errors\<close>.\<close>

fun column_step :: "verror list \<Rightarrow> column \<Rightarrow> verror list" where
  "column_step errors (col_name, numbers, low, high) =
     (if length numbers \<noteq> 5
      then errors @ [LengthErr col_name (length numbers)]
      else fst (foldl (token_step col_name low high) (errors, {}) (enumerate 0 numbers)))"

definition columns_of ::
  "token list \<Rightarrow> token list \<Rightarrow> token list \<Rightarrow> token list \<Rightarrow> token list \<Rightarrow> column list"
where
  "columns_of b_numbers i_numbers n_numbers g_numbers o_numbers =
     [(''B'', b_numbers, 1, 15),
      (''I'', i_numbers, 16, 30),
      (''N'', n_numbers, 31, 45),
      (''G'', g_numbers, 46, 60),
      (''O'', o_numbers, 61, 75)]"

definition card_errors ::
  "token list \<Rightarrow> token list \<Rightarrow> token list \<Rightarrow> token list \<Rightarrow> token list \<Rightarrow> verror list"
where
  "card_errors b_numbers i_numbers n_numbers g_numbers o_numbers =
     foldl column_step [] (columns_of b_numbers i_numbers n_numbers g_numbers o_numbers)"

definition validate_card ::
  "string \<Rightarrow> token list \<Rightarrow> token list \<Rightarrow> token list \<Rightarrow> token list \<Rightarrow> token list
     \<Rightarrow> bool \<times> string"
where
  "validate_card card_id b_numbers i_numbers n_numbers g_numbers o_numbers =
     (let errors = card_errors b_numbers i_numbers n_numbers g_numbers o_numbers
      in if errors \<noteq> []
         then (False, ''Card '' @ card_id @ '': '' @ join ''; '' (map render errors))
         else (True, ''Card '' @ card_id @ '': Valid''))"

subsection \<open>The table parser: \<^verbatim>\<open>parse_text_table\<close>\<close>

record card =
  card_id :: string
  b_nums :: "token list"
  i_nums :: "token list"
  n_nums :: "token list"
  g_nums :: "token list"
  o_nums :: "token list"

text \<open>\<^verbatim>\<open>re.match(r'^card\s', line, re.IGNORECASE)\<close>: the letters c, a, r, d in either
  case, then one white space character.\<close>

definition is_header :: "string \<Rightarrow> bool" where
  "is_header line =
     (case line of
        c1 # c2 # c3 # c4 # c5 # _ \<Rightarrow>
          (c1 = CHR ''c'' \<or> c1 = CHR ''C'') \<and> (c2 = CHR ''a'' \<or> c2 = CHR ''A'')
          \<and> (c3 = CHR ''r'' \<or> c3 = CHR ''R'') \<and> (c4 = CHR ''d'' \<or> c4 = CHR ''D'')
          \<and> isspace c5
      | _ \<Rightarrow> False)"

text \<open>The record appended for a line of at least six fields. The reads \<^verbatim>\<open>parts[0]\<close> to
  \<^verbatim>\<open>parts[5]\<close> are in range there, which is the only place \<open>card_of_parts\<close> is
  used.\<close>

definition card_of_parts :: "string list \<Rightarrow> card" where
  "card_of_parts parts =
     \<lparr>card_id = parts ! 0,
      b_nums = parse_numbers (parts ! 1),
      i_nums = parse_numbers (parts ! 2),
      n_nums = parse_numbers (parts ! 3),
      g_nums = parse_numbers (parts ! 4),
      o_nums = parse_numbers (parts ! 5)\<rparr>"

text \<open>The body of the loop over \<^verbatim>\<open>lines\<close>; the state is the flag
  \<^verbatim>\<open>header_found\<close> and the list \<^verbatim>\<open>data_lines\<close>.\<close>

fun table_step :: "bool \<times> card list \<Rightarrow> string \<Rightarrow> bool \<times> card list" where
  "table_step (header_found, data_lines) raw =
     (let line = strip raw
      in if line = [] then (header_found, data_lines)
         else if is_header line then (True, data_lines)
         else if header_found
         then (let parts = re_split isspace line
               in if length parts < 6 then (header_found, data_lines)
                  else (header_found, data_lines @ [card_of_parts parts]))
         else (header_found, data_lines))"

definition parse_lines :: "string list \<Rightarrow> bool \<times> card list" where
  "parse_lines lines = foldl table_step (False, []) lines"

definition parse_text_table :: "string \<Rightarrow> card list" where
  "parse_text_table text = snd (parse_lines (splitlines (strip text)))"

subsection \<open>The request handler \<^verbatim>\<open>validate\<close>: per-card results and duplicates\<close>

text \<open>The tuples of \<^verbatim>\<open>card_results\<close>.\<close>

record card_result =
  r_id :: string
  r_b :: "token list"
  r_i :: "token list"
  r_n :: "token list"
  r_g :: "token list"
  r_o :: "token list"
  r_valid :: bool
  r_msg :: string

definition result_of :: "card \<Rightarrow> card_result" where
  "result_of c =
     (case validate_card (card_id c) (b_nums c) (i_nums c) (n_nums c) (g_nums c) (o_nums c) of
        (valid, msg) \<Rightarrow>
          \<lparr>r_id = card_id c, r_b = b_nums c, r_i = i_nums c, r_n = n_nums c,
           r_g = g_nums c, r_o = o_nums c, r_valid = valid, r_msg = msg\<rparr>)"

type_synonym fingerprint =
  "token list \<times> token list \<times> token list \<times> token list \<times> token list"

definition fingerprint_of :: "card_result \<Rightarrow> fingerprint" where
  "fingerprint_of r = (r_b r, r_i r, r_n r, r_g r, r_o r)"

text \<open>\<^verbatim>\<open>fingerprint_map\<close> is a dictionary, which keeps its keys in the order of their
  first insertion: an association list in that order. \<open>setdefault_append m k e\<close> is
  \<^verbatim>\<open>m.setdefault(k, []).append(e)\<close>.\<close>

type_synonym fingerprint_map = "(fingerprint \<times> (string \<times> nat) list) list"

fun setdefault_append ::
  "fingerprint_map \<Rightarrow> fingerprint \<Rightarrow> string \<times> nat \<Rightarrow> fingerprint_map"
where
  "setdefault_append [] fp e = [(fp, [e])]"
| "setdefault_append ((k, id_list) # m) fp e =
     (if k = fp then (k, id_list @ [e]) # m else (k, id_list) # setdefault_append m fp e)"

definition fingerprint_step :: "fingerprint_map \<Rightarrow> nat \<times> card_result \<Rightarrow> fingerprint_map" where
  "fingerprint_step m p =
     (case p of (idx, r) \<Rightarrow> setdefault_append m (fingerprint_of r) (r_id r, idx))"

definition build_fingerprints :: "card_result list \<Rightarrow> fingerprint_map" where
  "build_fingerprints card_results = foldl fingerprint_step [] (enumerate 0 card_results)"

text \<open>The body of the inner loop over \<^verbatim>\<open>id_list\<close>. The index comes from
  \<^verbatim>\<open>enumerate(card_results)\<close>, so the read \<^verbatim>\<open>card_results[idx]\<close> is in range
  (lemma \<open>build_fingerprints_in_range\<close> below).\<close>

definition other_ids :: "(string \<times> nat) list \<Rightarrow> string \<Rightarrow> string list" where
  "other_ids id_list cid0 = map fst (filter (\<lambda>(cid, _). cid \<noteq> cid0) id_list)"

definition duplicate_msg :: "(string \<times> nat) list \<Rightarrow> string \<Rightarrow> string" where
  "duplicate_msg id_list cid0 = ''Duplicate of card(s) '' @ join '', '' (other_ids id_list cid0)"

definition member_step ::
  "(string \<times> nat) list \<Rightarrow> card_result list \<Rightarrow> string \<times> nat \<Rightarrow> card_result list"
where
  "member_step id_list card_results e =
     (case e of (cid0, idx) \<Rightarrow>
        (let old = card_results ! idx
         in if r_valid old
            then card_results[idx :=
                   \<lparr>r_id = r_id old, r_b = r_b old, r_i = r_i old, r_n = r_n old,
                    r_g = r_g old, r_o = r_o old, r_valid = False,
                    r_msg = ''Valid but '' @ duplicate_msg id_list cid0\<rparr>]
            else card_results[idx :=
                   \<lparr>r_id = r_id old, r_b = r_b old, r_i = r_i old, r_n = r_n old,
                    r_g = r_g old, r_o = r_o old, r_valid = False,
                    r_msg = r_msg old @ ''; '' @ duplicate_msg id_list cid0\<rparr>]))"

text \<open>The body of the loop over \<^verbatim>\<open>fingerprint_map.items()\<close>; the state is
  \<^verbatim>\<open>card_results\<close> and \<^verbatim>\<open>duplicate_groups\<close>.\<close>

definition group_step ::
  "card_result list \<times> string list list \<Rightarrow> fingerprint \<times> (string \<times> nat) list
     \<Rightarrow> card_result list \<times> string list list"
where
  "group_step st g =
     (case st of (card_results, duplicate_groups) \<Rightarrow>
      (case g of (fp, id_list) \<Rightarrow>
        if length id_list > 1
        then (foldl (member_step id_list) card_results id_list,
              duplicate_groups @ [map fst id_list])
        else (card_results, duplicate_groups)))"

definition mark_duplicates :: "card_result list \<Rightarrow> card_result list \<times> string list list" where
  "mark_duplicates card_results =
     foldl group_step (card_results, []) (build_fingerprints card_results)"

text \<open>What the handler computes from the submitted text, once the text has been taken from
  the form or the uploaded file: either the notice that no card was found, or the values
  handed to the template.\<close>

datatype outcome =
    NoCards
  | Page (invalid_msgs: "string list") (valid_count: nat) (duplicate_groups: "string list list")

definition validate :: "string \<Rightarrow> outcome" where
  "validate text_data =
     (let cards = parse_text_table text_data
      in if cards = [] then NoCards
         else (case mark_duplicates (map result_of cards) of
                 (card_results, groups) \<Rightarrow>
                   Page (map r_msg (filter (\<lambda>r. \<not> r_valid r) card_results))
                        (length (map r_msg (filter r_valid card_results)))
                        groups))"

subsection \<open>The specification's view of a cell\<close>




subsection \<open>The specification's view of the duplicate groups\<close>

text \<open>
  \<open>first_seen xs\<close> lists the distinct values of \<open>xs\<close> in the order of their first
  occurrence. \<open>members rs k\<close> lists, in batch order, the identifier and the position of
  every card of \<open>rs\<close> whose fingerprint is \<open>k\<close>. Both follow the specification's words
  and are compared with \<open>build_fingerprints\<close> and \<open>mark_duplicates\<close> below.
\<close>

fun first_seen :: "'a list \<Rightarrow> 'a list" where
  "first_seen [] = []"
| "first_seen (x # xs) = x # filter (\<lambda>y. y \<noteq> x) (first_seen xs)"

definition members :: "card_result list \<Rightarrow> fingerprint \<Rightarrow> (string \<times> nat) list" where
  "members rs k =
     map (\<lambda>(j, r). (r_id r, j)) (filter (\<lambda>(j, r). fingerprint_of r = k) (enumerate 0 rs))"

text \<open>
  \<open>marked id_list cid old\<close> is the result that the specification gives a member of a
  duplicate group: the old result with the flag cleared and the message rewritten, nothing
  else touched.
\<close>

definition marked :: "(string \<times> nat) list \<Rightarrow> string \<Rightarrow> card_result \<Rightarrow> card_result" where
  "marked id_list cid old =
     old\<lparr>r_valid := False,
         r_msg := (if r_valid old then ''Valid but '' @ duplicate_msg id_list cid
                   else r_msg old @ ''; '' @ duplicate_msg id_list cid)\<rparr>"

text \<open>
  \<open>other_member_ids rs j\<close> is the list that the specification puts into the duplicate
  message of the card at position \<open>j\<close>: the identifiers of the other cards with the same
  fingerprint, in batch order, leaving out only the card at position \<open>j\<close> itself.
\<close>

definition other_member_ids :: "card_result list \<Rightarrow> nat \<Rightarrow> string list" where
  "other_member_ids rs j =
     map (\<lambda>p. r_id (snd p))
       (filter (\<lambda>p. fst p \<noteq> j \<and> fingerprint_of (snd p) = fingerprint_of (rs ! j))
          (enumerate 0 rs))"

subsection \<open>Inputs of the scenarios\<close>

text \<open>Scenario A of the specification: a header line and one well-formed card.\<close>

definition scenario_A :: string where
  "scenario_A =
     ''Card ID B I N G O'' @ [CHR 0x0A]
     @ ''1 1,2,3,4,5 16,17,18,19,20 31,32,0,34,35 46,47,48,49,50 61,62,63,64,65''"

text \<open>The line of Scenario A given twice, both times with the identifier 1.\<close>

definition repeated_identifier_text :: string where
  "repeated_identifier_text =
     ''Card ID B I N G O'' @ [CHR 0x0A]
     @ ''1 1,2,3,4,5 16,17,18,19,20 31,32,0,34,35 46,47,48,49,50 61,62,63,64,65'' @ [CHR 0x0A]
     @ ''1 1,2,3,4,5 16,17,18,19,20 31,32,0,34,35 46,47,48,49,50 61,62,63,64,65''"

section \<open>Properties of the card checker\<close>

text \<open>The list \<^verbatim>\<open>errors\<close> only grows: what a token, and a column, adds to it does not
  depend on what it held before.\<close>

lemma token_step_acc:
  "token_step c lo hi (errors, seen) p =
     (errors @ fst (token_step c lo hi ([], seen) p), snd (token_step c lo hi ([], seen) p))"
  by (cases p; cases "snd p") (auto simp: Let_def)

lemma foldl_token_step_acc:
  "foldl (token_step c lo hi) (errors, seen) ps =
     (errors @ fst (foldl (token_step c lo hi) ([], seen) ps),
      snd (foldl (token_step c lo hi) ([], seen) ps))"
proof (induction ps arbitrary: errors seen)
  case Nil
  show ?case by simp
next
  case (Cons p ps)
  obtain e1 s1 where st: "token_step c lo hi ([], seen) p = (e1, s1)"
    by (cases "token_step c lo hi ([], seen) p")
  have step: "token_step c lo hi (errors, seen) p = (errors @ e1, s1)"
    using token_step_acc [of c lo hi errors seen p] st by simp
  show ?case
    using Cons.IH [of "errors @ e1" s1] Cons.IH [of e1 s1] by (simp add: step st)
qed

lemma column_step_acc: "column_step errors col = errors @ column_step [] col"
proof (cases col)
  case (fields c xs lo hi)
  show ?thesis
    using foldl_token_step_acc [of c lo hi errors "{}" "enumerate 0 xs"]
    by (simp add: fields)
qed

lemma foldl_column_step:
  "foldl column_step errors cols = errors @ concat (map (column_step []) cols)"
proof (induction cols arbitrary: errors)
  case Nil
  show ?case by simp
next
  case (Cons col cols)
  show ?case
    using Cons.IH [of "column_step errors col"] column_step_acc [of errors col] by simp
qed

lemma err_col_token_step:
  "e \<in> set (fst (token_step c lo hi ([], seen) p)) \<Longrightarrow> err_col e = c"
  by (cases p; cases "snd p") (auto simp: Let_def split: if_splits)

lemma err_col_foldl_token_step:
  "e \<in> set (fst (foldl (token_step c lo hi) ([], seen) ps)) \<Longrightarrow> err_col e = c"
proof (induction ps arbitrary: seen e rule: rev_induct)
  case Nil
  then show ?case by simp
next
  case (snoc p ps)
  obtain e1 s1 where st: "foldl (token_step c lo hi) ([], seen) ps = (e1, s1)"
    by (cases "foldl (token_step c lo hi) ([], seen) ps")
  have "token_step c lo hi (e1, s1) p = (e1 @ fst (token_step c lo hi ([], s1) p), snd (token_step c lo hi ([], s1) p))"
    by (rule token_step_acc)
  with snoc.prems st have "e \<in> set e1 \<or> e \<in> set (fst (token_step c lo hi ([], s1) p))"
    by auto
  then show ?case
    using snoc.IH [of e seen] st err_col_token_step [of e c lo hi s1 p] by auto
qed

lemma err_col_column_step:
  "e \<in> set (column_step [] (c, xs, lo, hi)) \<Longrightarrow> err_col e = c"
  using err_col_foldl_token_step [of e c lo hi "{}" "enumerate 0 xs"]
  by (auto split: if_splits)

lemma card_errors_concat:
  "card_errors cb ci cn cg co = concat (map (column_step []) (columns_of cb ci cn cg co))"
  by (simp add: card_errors_def foldl_column_step)

subsection \<open>A column of the wrong length\<close>

lemma filter_own_column:
  "filter (\<lambda>e. err_col e = c) (column_step [] (c, xs, lo, hi)) = column_step [] (c, xs, lo, hi)"
  using err_col_column_step [of _ c xs lo hi] by (simp only: filter_id_conv) blast

lemma filter_other_column:
  "c' \<noteq> c \<Longrightarrow> filter (\<lambda>e. err_col e = c') (column_step [] (c, xs, lo, hi)) = []"
  using err_col_column_step [of _ c xs lo hi] by (simp only: filter_empty_conv) blast

lemma filter_card_errors:
  assumes "j < 5"
  shows "filter (\<lambda>e. err_col e = fst (columns_of cb ci cn cg co ! j)) (card_errors cb ci cn cg co)
           = column_step [] (columns_of cb ci cn cg co ! j)"
proof -
  from assms have "j = 0 \<or> j = 1 \<or> j = 2 \<or> j = 3 \<or> j = 4"
    by arith
  then show ?thesis
    unfolding card_errors_concat columns_of_def
    by (elim disjE) (simp_all add: filter_own_column filter_other_column del: column_step.simps)
qed

text \<open>
  Claim C6. When a column of a card does not hold exactly five tokens, the errors that the
  checker records under that column's name are one length error and nothing else: no range,
  duplicate, non-numeric or centre error. Each of the other four columns still gets all
  the errors that its own check produces.
\<close>

theorem length_error_only:
  assumes k: "k < 5"
    and col: "columns_of cb ci cn cg co ! k = (col_name, numbers, low, high)"
    and len: "length numbers \<noteq> 5"
  shows "filter (\<lambda>e. err_col e = col_name) (card_errors cb ci cn cg co)
           = [LengthErr col_name (length numbers)]
         \<and> (\<forall>j<5. j \<noteq> k \<longrightarrow>
               filter (\<lambda>e. err_col e = fst (columns_of cb ci cn cg co ! j))
                 (card_errors cb ci cn cg co)
               = column_step [] (columns_of cb ci cn cg co ! j))"
proof -
  have "filter (\<lambda>e. err_col e = col_name) (card_errors cb ci cn cg co)
          = column_step [] (col_name, numbers, low, high)"
    using filter_card_errors [OF k, of cb ci cn cg co] col by simp
  also have "\<dots> = [LengthErr col_name (length numbers)]"
    using len by simp
  finally show ?thesis
    using filter_card_errors by blast
qed

text \<open>An instance: a B column of four tokens next to an I column with three errors.\<close>

theorem length_error_only_witness:
  "filter (\<lambda>e. err_col e = ''B'')
     (card_errors [Some 1, Some 2, Some 3, Some 4]
        [Some 16, Some 16, Some 99, None, Some 20]
        [Some 31, Some 32, Some 0, Some 34, Some 35]
        [Some 46, Some 47, Some 48, Some 49, Some 50]
        [Some 61, Some 62, Some 63, Some 64, Some 65])
     = [LengthErr ''B'' 4]
   \<and> filter (\<lambda>e. err_col e = ''I'')
     (card_errors [Some 1, Some 2, Some 3, Some 4]
        [Some 16, Some 16, Some 99, None, Some 20]
        [Some 31, Some 32, Some 0, Some 34, Some 35]
        [Some 46, Some 47, Some 48, Some 49, Some 50]
        [Some 61, Some 62, Some 63, Some 64, Some 65])
     = [DupErr ''I'' 16, RangeErr ''I'' 99 16 30, NonNumeric ''I'']"
proof -
  let ?b = "[Some 1, Some 2, Some 3, Some (4::int)]"
  let ?i = "[Some 16, Some 16, Some 99, None, Some (20::int)]"
  let ?n = "[Some 31, Some 32, Some 0, Some 34, Some (35::int)]"
  let ?g = "[Some 46, Some 47, Some 48, Some 49, Some (50::int)]"
  let ?o = "[Some 61, Some 62, Some 63, Some 64, Some (65::int)]"
  have k: "(0::nat) < 5" by simp
  have col: "columns_of ?b ?i ?n ?g ?o ! 0 = (''B'', ?b, 1, 15)"
    by (simp add: columns_of_def)
  have len: "length ?b \<noteq> 5" by simp
  have j: "columns_of ?b ?i ?n ?g ?o ! 1 = (''I'', ?i, 16, 30)"
    by (simp add: columns_of_def)
  have e: "column_step [] (''I'', ?i, 16, 30) = [DupErr ''I'' 16, RangeErr ''I'' 99 16 30, NonNumeric ''I'']"
    by (simp add: enumerate_eq_zip upt_rec)
  note inst = length_error_only [OF k col len]
  from inst have a: "filter (\<lambda>e. err_col e = ''B'') (card_errors ?b ?i ?n ?g ?o)
      = [LengthErr ''B'' (length ?b)]"
    by (rule conjunct1)
  from inst have "\<forall>j<5. j \<noteq> 0 \<longrightarrow>
      filter (\<lambda>e. err_col e = fst (columns_of ?b ?i ?n ?g ?o ! j)) (card_errors ?b ?i ?n ?g ?o)
      = column_step [] (columns_of ?b ?i ?n ?g ?o ! j)"
    by (rule conjunct2)
  then have "filter (\<lambda>e. err_col e = fst (columns_of ?b ?i ?n ?g ?o ! 1))
      (card_errors ?b ?i ?n ?g ?o) = column_step [] (columns_of ?b ?i ?n ?g ?o ! 1)"
    by (rule allE [where x = 1]) simp
  then have b: "filter (\<lambda>e. err_col e = ''I'') (card_errors ?b ?i ?n ?g ?o)
      = [DupErr ''I'' 16, RangeErr ''I'' 99 16 30, NonNumeric ''I'']"
    by (simp only: j e fst_conv)
  from a b show ?thesis by simp
qed

subsection \<open>The free-space position\<close>

lemma list5:
  assumes "length xs = 5"
  shows "xs = [xs ! 0, xs ! 1, xs ! 2, xs ! 3, xs ! 4]"
proof -
  from assms obtain a b c d e where "xs = [a, b, c, d, e]"
    by (auto simp: length_Suc_conv eval_nat_numeral)
  then show ?thesis by simp
qed

lemma enumerate5:
  "enumerate 0 [a, b, c, d, e] = [(0, a), (1, b), (2, c), (3, d), (4, e)]"
  by (simp add: enumerate_eq_zip upt_rec)

lemma snd_token_step:
  "snd (token_step c lo hi st (pos, t)) =
     (if c = ''N'' \<and> pos = 2 then snd st
      else (case t of None \<Rightarrow> snd st | Some v \<Rightarrow> insert v (snd st)))"
  by (cases st; cases t) (simp_all add: Let_def)

lemma dup_token_step:
  "DupErr c' v \<in> set (fst (token_step c lo hi st (pos, t))) \<longleftrightarrow>
     DupErr c' v \<in> set (fst st)
     \<or> (c' = c \<and> \<not> (c = ''N'' \<and> pos = 2) \<and> t = Some v \<and> v \<in> snd st)"
  by (cases st; cases t) (auto simp: Let_def)

lemma center_token_step:
  "CenterErr c' v \<in> set (fst (token_step c lo hi st (pos, t))) \<longleftrightarrow>
     CenterErr c' v \<in> set (fst st)
     \<or> (c' = c \<and> c = ''N'' \<and> pos = 2 \<and> t = Some v \<and> v \<noteq> 0)"
  by (cases st; cases t) (auto simp: Let_def)

lemma nonnum_token_step:
  "NonNumeric c' \<in> set (fst (token_step c lo hi st (pos, t))) \<longleftrightarrow>
     NonNumeric c' \<in> set (fst st) \<or> (c' = c \<and> t = None)"
  by (cases st; cases t) (auto simp: Let_def)

text \<open>
  Claim C1, as amended. When the N column holds five tokens and the token at the free-space
  position (index 2) is the invalid marker, the checker records a non-numeric-value error
  for that position and no centre-mismatch error: the test for the marker comes before the
  test for the free-space position.
\<close>

theorem center_invalid_is_non_numeric:
  assumes len: "length cn = 5" and inv: "cn ! 2 = None"
  shows "token_step ''N'' 31 45 (errors, seen) (2, cn ! 2) = (errors @ [NonNumeric ''N''], seen)
         \<and> NonNumeric ''N'' \<in> set (card_errors cb ci cn cg co)
         \<and> (\<forall>v. CenterErr ''N'' v \<notin> set (card_errors cb ci cn cg co))"
proof -
  have own: "filter (\<lambda>e. err_col e = ''N'') (card_errors cb ci cn cg co)
               = column_step [] (''N'', cn, 31, 45)"
    using filter_card_errors [of 2 cb ci cn cg co] by (simp add: columns_of_def)
  have cn: "cn = [cn ! 0, cn ! 1, None, cn ! 3, cn ! 4]"
    using list5 [OF len] inv by simp
  have col: "column_step [] (''N'', cn, 31, 45) =
      fst (foldl (token_step ''N'' 31 45) ([], {})
            [(0, cn ! 0), (1, cn ! 1), (2, None), (3, cn ! 3), (4, cn ! 4)])"
    by (subst cn) (simp only: column_step.simps enumerate5, simp)
  have a: "NonNumeric ''N'' \<in> set (column_step [] (''N'', cn, 31, 45))"
    unfolding col by (simp add: nonnum_token_step)
  have b: "CenterErr ''N'' v \<notin> set (column_step [] (''N'', cn, 31, 45))" for v
    unfolding col by (simp add: center_token_step)
  have "NonNumeric ''N'' \<in> set (filter (\<lambda>e. err_col e = ''N'') (card_errors cb ci cn cg co))"
    using a own by simp
  moreover have "CenterErr ''N'' v \<notin> set (filter (\<lambda>e. err_col e = ''N'') (card_errors cb ci cn cg co))" for v
    using b own by simp
  ultimately show ?thesis
    using inv by simp
qed

text \<open>An instance, with empty columns beside the N column.\<close>

theorem center_invalid_is_non_numeric_witness:
  "token_step ''N'' 31 45 ([], {}) (2, None) = ([NonNumeric ''N''], {})
   \<and> NonNumeric ''N'' \<in> set (card_errors [] [] [Some 31, Some 32, None, Some 34, Some 35] [] [])
   \<and> (\<forall>v. CenterErr ''N'' v \<notin> set (card_errors [] [] [Some 31, Some 32, None, Some 34, Some 35] [] []))"
proof -
  let ?n = "[Some 31, Some 32, None, Some 34, Some (35::int)]"
  have len: "length ?n = 5" by simp
  have inv: "?n ! 2 = None" by simp
  from center_invalid_is_non_numeric [OF len inv, of "[]" "{}" "[]" "[]" "[]" "[]"]
  show ?thesis by simp
qed

text \<open>
  Claim C1 as the specification states it asks for a centre-mismatch error and no
  non-numeric error. On this card, whose only flaw is the marker at the free-space
  position, the one error recorded is the non-numeric one.
\<close>

theorem center_invalid_counterexample:
  "card_errors [Some 1, Some 2, Some 3, Some 4, Some 5]
     [Some 16, Some 17, Some 18, Some 19, Some 20]
     [Some 31, Some 32, None, Some 34, Some 35]
     [Some 46, Some 47, Some 48, Some 49, Some 50]
     [Some 61, Some 62, Some 63, Some 64, Some 65] = [NonNumeric ''N'']"
  by (simp add: card_errors_def columns_of_def enumerate5)

text \<open>
  Claim C10. For an N column of five tokens, the set \<^verbatim>\<open>seen\<close> at the end of the walk
  holds the integers at the positions 0, 1, 3 and 4 only, and a duplicate error for a value
  is recorded exactly when that value stands at two of these four positions. The token at
  the free-space position takes no part in either.
\<close>

theorem center_outside_seen:
  assumes len: "length cn = 5"
  shows "snd (foldl (token_step ''N'' low high) (errors, {}) (enumerate 0 cn))
           = {v. Some v \<in> set [cn ! 0, cn ! 1, cn ! 3, cn ! 4]}
         \<and> (\<forall>v. DupErr ''N'' v \<in> set (column_step [] (''N'', cn, low, high))
                  \<longleftrightarrow> 2 \<le> count_list [cn ! 0, cn ! 1, cn ! 3, cn ! 4] (Some v))"
proof -
  obtain a b c d e where cn: "cn = [a, b, c, d, e]"
    using list5 [OF len] by blast
  have seen: "snd (foldl (token_step ''N'' low high) (errors, {}) (enumerate 0 cn))
           = {v. Some v \<in> set [cn ! 0, cn ! 1, cn ! 3, cn ! 4]}"
    unfolding cn enumerate5
    by (cases a; cases b; cases d; cases e)
       (auto simp: snd_token_step simp del: token_step.simps)
  have dup: "DupErr ''N'' v \<in> set (column_step [] (''N'', cn, low, high))
                  \<longleftrightarrow> 2 \<le> count_list [cn ! 0, cn ! 1, cn ! 3, cn ! 4] (Some v)" for v
    unfolding cn
    by (simp only: column_step.simps enumerate5)
       (cases a; cases b; cases d; cases e;
        auto simp: snd_token_step dup_token_step simp del: token_step.simps)
  from seen dup show ?thesis by blast
qed

text \<open>An instance: the centre repeats the first value of the column, and no duplicate
  is reported.\<close>

theorem center_outside_seen_witness:
  "snd (foldl (token_step ''N'' 31 45) ([], {})
         (enumerate 0 [Some 31, Some 32, Some 31, Some 34, Some 35]))
     = {31, 32, 34, 35}
   \<and> DupErr ''N'' 31
       \<notin> set (column_step [] (''N'', [Some 31, Some 32, Some 31, Some 34, Some 35], 31, 45))"
proof -
  let ?n = "[Some 31, Some 32, Some 31, Some 34, Some (35::int)]"
  have len: "length ?n = 5" by simp
  note inst = center_outside_seen [OF len, of 31 45 "[]"]
  from inst have "snd (foldl (token_step ''N'' 31 45) ([], {}) (enumerate 0 ?n))
           = {v. Some v \<in> set [?n ! 0, ?n ! 1, ?n ! 3, ?n ! 4]}"
    by (rule conjunct1)
  then have seen: "snd (foldl (token_step ''N'' 31 45) ([], {}) (enumerate 0 ?n))
           = {31, 32, 34, 35}"
    by (simp only: nth_Cons_0 nth_Cons_numeral nth_Cons_Suc One_nat_def) auto
  from inst have "\<forall>v. DupErr ''N'' v \<in> set (column_step [] (''N'', ?n, 31, 45))
                  \<longleftrightarrow> 2 \<le> count_list [?n ! 0, ?n ! 1, ?n ! 3, ?n ! 4] (Some v)"
    by (rule conjunct2)
  then have "DupErr ''N'' 31 \<in> set (column_step [] (''N'', ?n, 31, 45))
                  \<longleftrightarrow> 2 \<le> count_list [?n ! 0, ?n ! 1, ?n ! 3, ?n ! 4] (Some 31)"
    by (rule spec)
  then have dup: "DupErr ''N'' 31 \<notin> set (column_step [] (''N'', ?n, 31, 45))"
    by simp
  from seen dup show ?thesis by (rule conjI)
qed

subsection \<open>A well-formed card\<close>

lemma good_tokens:
  assumes "c \<noteq> ''N''"
    and "distinct xs"
    and "\<forall>t\<in>set xs. \<exists>v. t = Some v \<and> lo \<le> v \<and> v \<le> hi \<and> v \<notin> seen"
  shows "fst (foldl (token_step c lo hi) (errors, seen) (enumerate k xs)) = errors"
  using assms(2,3)
proof (induction xs arbitrary: seen k)
  case Nil
  show ?case by simp
next
  case (Cons t ts)
  from Cons.prems(2) obtain v where t: "t = Some v" and v: "lo \<le> v" "v \<le> hi" "v \<notin> seen"
    by auto
  have step: "token_step c lo hi (errors, seen) (k, t) = (errors, insert v seen)"
    using assms(1) t v by simp
  have "\<forall>t'\<in>set ts. \<exists>w. t' = Some w \<and> lo \<le> w \<and> w \<le> hi \<and> w \<notin> insert v seen"
    using Cons.prems t by auto
  moreover have "distinct ts"
    using Cons.prems(1) by simp
  ultimately have "fst (foldl (token_step c lo hi) (errors, insert v seen) (enumerate (Suc k) ts)) = errors"
    by (rule Cons.IH [rotated])
  then show ?case
    by (simp add: step del: token_step.simps)
qed

lemma good_column:
  assumes "c \<noteq> ''N''" and "length xs = 5" and "distinct xs"
    and "\<forall>t\<in>set xs. \<exists>v. t = Some v \<and> lo \<le> v \<and> v \<le> hi"
  shows "column_step errors (c, xs, lo, hi) = errors"
  using good_tokens [of c xs lo hi "{}" errors 0] assms by simp

lemma good_center_column:
  assumes len: "length cn = 5" and center: "cn ! 2 = Some 0"
    and dist: "distinct [cn ! 0, cn ! 1, cn ! 3, cn ! 4]"
    and range: "\<forall>p<5. p \<noteq> 2 \<longrightarrow> (\<exists>v. cn ! p = Some v \<and> 31 \<le> v \<and> v \<le> 45)"
  shows "column_step errors (''N'', cn, 31, 45) = errors"
proof -
  from range obtain a where a: "cn ! 0 = Some a" "31 \<le> a" "a \<le> 45"
    by (metis zero_less_numeral zero_neq_numeral)
  from range have "\<exists>v. cn ! 1 = Some v \<and> 31 \<le> v \<and> v \<le> 45"
    by simp
  then obtain b where b: "cn ! 1 = Some b" "31 \<le> b" "b \<le> 45"
    by blast
  from range have "\<exists>v. cn ! 3 = Some v \<and> 31 \<le> v \<and> v \<le> 45"
    by simp
  then obtain d where d: "cn ! 3 = Some d" "31 \<le> d" "d \<le> 45"
    by blast
  from range have "\<exists>v. cn ! 4 = Some v \<and> 31 \<le> v \<and> v \<le> 45"
    by simp
  then obtain e where e: "cn ! 4 = Some e" "31 \<le> e" "e \<le> 45"
    by blast
  have cn: "cn = [Some a, Some b, Some 0, Some d, Some e]"
    using list5 [OF len] a(1) b(1) d(1) e(1) center by simp
  from dist have "a \<noteq> b" "a \<noteq> d" "a \<noteq> e" "b \<noteq> d" "b \<noteq> e" "d \<noteq> e"
    using a(1) b(1) d(1) e(1) by auto
  then show ?thesis
    using a b d e by (simp add: cn enumerate5)
qed


lemma well_formed_errors:
  fixes cb ci cn cg co :: "token list"
  assumes h: "length cb = 5 \<and> distinct cb \<and> (\<forall>t\<in>set cb. \<exists>v. t = Some v \<and> 1 \<le> v \<and> v \<le> 15)
      \<and> length ci = 5 \<and> distinct ci \<and> (\<forall>t\<in>set ci. \<exists>v. t = Some v \<and> 16 \<le> v \<and> v \<le> 30)
      \<and> length cn = 5 \<and> cn ! 2 = Some 0 \<and> distinct [cn ! 0, cn ! 1, cn ! 3, cn ! 4]
      \<and> (\<forall>p<5. p \<noteq> 2 \<longrightarrow> (\<exists>v. cn ! p = Some v \<and> 31 \<le> v \<and> v \<le> 45))
      \<and> length cg = 5 \<and> distinct cg \<and> (\<forall>t\<in>set cg. \<exists>v. t = Some v \<and> 46 \<le> v \<and> v \<le> 60)
      \<and> length co = 5 \<and> distinct co \<and> (\<forall>t\<in>set co. \<exists>v. t = Some v \<and> 61 \<le> v \<and> v \<le> 75)"
  shows "card_errors cb ci cn cg co = []"
proof -
  have b: "column_step [] (''B'', cb, 1, 15) = []"
    using h by (intro good_column) simp_all
  have i: "column_step [] (''I'', ci, 16, 30) = []"
    using h by (intro good_column) simp_all
  have n: "column_step [] (''N'', cn, 31, 45) = []"
    using h by (intro good_center_column) simp_all
  have g: "column_step [] (''G'', cg, 46, 60) = []"
    using h by (intro good_column) simp_all
  have o: "column_step [] (''O'', co, 61, 75) = []"
    using h by (intro good_column) simp_all
  show "card_errors cb ci cn cg co = []"
    unfolding card_errors_concat columns_of_def
    by (simp add: b i n g o del: column_step.simps)
qed


lemma scenario_A_cards:
  "parse_text_table scenario_A =
     [\<lparr>card_id = ''1'',
       b_nums = [Some 1, Some 2, Some 3, Some 4, Some 5],
       i_nums = [Some 16, Some 17, Some 18, Some 19, Some 20],
       n_nums = [Some 31, Some 32, Some 0, Some 34, Some 35],
       g_nums = [Some 46, Some 47, Some 48, Some 49, Some 50],
       o_nums = [Some 61, Some 62, Some 63, Some 64, Some 65]\<rparr>]"
  unfolding scenario_A_def by code_simp

lemma scenario_A_verdict:
  "validate_card ''1'' [Some 1, Some 2, Some 3, Some 4, Some 5]
     [Some 16, Some 17, Some 18, Some 19, Some 20]
     [Some 31, Some 32, Some 0, Some 34, Some 35]
     [Some 46, Some 47, Some 48, Some 49, Some 50]
     [Some 61, Some 62, Some 63, Some 64, Some 65] = (True, ''Card 1: Valid'')"
  by (simp add: validate_card_def card_errors_def columns_of_def enumerate5)

lemma scenario_A_page: "validate scenario_A = Page [] 1 []"
  by (simp add: validate_def scenario_A_cards result_of_def scenario_A_verdict
        mark_duplicates_def build_fingerprints_def fingerprint_step_def group_step_def)

text \<open>
  Claim C4. A card whose columns B, I, G and O each hold five distinct integers within the
  column's range, and whose N column holds 0 at index 2 and four distinct integers within
  31 to 45 at the other positions, is valid, with the message made of the card's identifier
  and \<^verbatim>\<open>Valid\<close>. For the text of Scenario A the parser and the checker give one
  valid card with the message \<^verbatim>\<open>Card 1: Valid\<close>, and the handler reports one valid
  card, no invalid message and no duplicate group.
\<close>

theorem well_formed_card_valid:
  "(\<forall>cid cb ci cn cg co.
      length cb = 5 \<and> distinct cb \<and> (\<forall>t\<in>set cb. \<exists>v. t = Some v \<and> 1 \<le> v \<and> v \<le> 15)
      \<and> length ci = 5 \<and> distinct ci \<and> (\<forall>t\<in>set ci. \<exists>v. t = Some v \<and> 16 \<le> v \<and> v \<le> 30)
      \<and> length cn = 5 \<and> cn ! 2 = Some 0 \<and> distinct [cn ! 0, cn ! 1, cn ! 3, cn ! 4]
      \<and> (\<forall>p<5. p \<noteq> 2 \<longrightarrow> (\<exists>v. cn ! p = Some v \<and> 31 \<le> v \<and> v \<le> 45))
      \<and> length cg = 5 \<and> distinct cg \<and> (\<forall>t\<in>set cg. \<exists>v. t = Some v \<and> 46 \<le> v \<and> v \<le> 60)
      \<and> length co = 5 \<and> distinct co \<and> (\<forall>t\<in>set co. \<exists>v. t = Some v \<and> 61 \<le> v \<and> v \<le> 75)
      \<longrightarrow> validate_card cid cb ci cn cg co = (True, ''Card '' @ cid @ '': Valid''))
   \<and> map (\<lambda>c. validate_card (card_id c) (b_nums c) (i_nums c) (n_nums c) (g_nums c) (o_nums c))
        (parse_text_table scenario_A) = [(True, ''Card 1: Valid'')]
   \<and> validate scenario_A = Page [] 1 []"
proof (intro conjI allI impI)
  fix cid :: string and cb ci cn cg co :: "token list"
  assume "length cb = 5 \<and> distinct cb \<and> (\<forall>t\<in>set cb. \<exists>v. t = Some v \<and> 1 \<le> v \<and> v \<le> 15)
      \<and> length ci = 5 \<and> distinct ci \<and> (\<forall>t\<in>set ci. \<exists>v. t = Some v \<and> 16 \<le> v \<and> v \<le> 30)
      \<and> length cn = 5 \<and> cn ! 2 = Some 0 \<and> distinct [cn ! 0, cn ! 1, cn ! 3, cn ! 4]
      \<and> (\<forall>p<5. p \<noteq> 2 \<longrightarrow> (\<exists>v. cn ! p = Some v \<and> 31 \<le> v \<and> v \<le> 45))
      \<and> length cg = 5 \<and> distinct cg \<and> (\<forall>t\<in>set cg. \<exists>v. t = Some v \<and> 46 \<le> v \<and> v \<le> 60)
      \<and> length co = 5 \<and> distinct co \<and> (\<forall>t\<in>set co. \<exists>v. t = Some v \<and> 61 \<le> v \<and> v \<le> 75)"
  then have "card_errors cb ci cn cg co = []"
    by (rule well_formed_errors)
  then show "validate_card cid cb ci cn cg co = (True, ''Card '' @ cid @ '': Valid'')"
    by (simp add: validate_card_def)
next
  show "map (\<lambda>c. validate_card (card_id c) (b_nums c) (i_nums c) (n_nums c) (g_nums c) (o_nums c))
        (parse_text_table scenario_A) = [(True, ''Card 1: Valid'')]"
    by (simp add: scenario_A_cards scenario_A_verdict)
next
  show "validate scenario_A = Page [] 1 []"
    by (rule scenario_A_page)
qed

text \<open>An instance of the general part, on a card other than that of Scenario A.\<close>

theorem well_formed_card_valid_witness:
  "validate_card ''7'' [Some 15, Some 2, Some 7, Some 14, Some 11]
     [Some 16, Some 30, Some 22, Some 19, Some 28]
     [Some 45, Some 31, Some 0, Some 40, Some 33]
     [Some 46, Some 60, Some 51, Some 59, Some 47]
     [Some 75, Some 61, Some 70, Some 66, Some 62] = (True, ''Card 7: Valid'')"
proof -
  let ?n = "[Some 45, Some 31, Some 0, Some 40, Some (33::int)]"
  have n: "\<forall>p<5. p \<noteq> 2 \<longrightarrow> (\<exists>v. ?n ! p = Some v \<and> 31 \<le> v \<and> v \<le> 45)"
  proof (intro allI impI)
    fix p :: nat
    assume "p < 5" and "p \<noteq> 2"
    then have "p = 0 \<or> p = 1 \<or> p = 3 \<or> p = 4" by arith
    then show "\<exists>v. ?n ! p = Some v \<and> 31 \<le> v \<and> v \<le> 45"
      by (elim disjE) simp_all
  qed
  note gen = well_formed_card_valid [THEN conjunct1, rule_format]
  have "validate_card ''7'' [Some 15, Some 2, Some 7, Some 14, Some 11]
     [Some 16, Some 30, Some 22, Some 19, Some 28] ?n
     [Some 46, Some 60, Some 51, Some 59, Some 47]
     [Some 75, Some 61, Some 70, Some 66, Some 62] = (True, ''Card '' @ ''7'' @ '': Valid'')"
    by (rule gen) (intro conjI n; simp)
  then show ?thesis by simp
qed

section \<open>Properties of the tokenizer\<close>
























section \<open>Properties of the table parser\<close>

text \<open>The list \<^verbatim>\<open>data_lines\<close> only grows, and what a line adds to it depends on the
  flag alone.\<close>

lemma table_step_acc:
  "table_step (h, d) l = (fst (table_step (h, []) l), d @ snd (table_step (h, []) l))"
  by (simp add: Let_def)

lemma foldl_table_step_acc:
  "foldl table_step (h, d) ls =
     (fst (foldl table_step (h, []) ls), d @ snd (foldl table_step (h, []) ls))"
proof (induction ls arbitrary: h d)
  case Nil
  show ?case by simp
next
  case (Cons l ls)
  obtain h1 d1 where st: "table_step (h, []) l = (h1, d1)"
    by (cases "table_step (h, []) l")
  have step: "table_step (h, d) l = (h1, d @ d1)"
    using table_step_acc [of h d l] st by simp
  show ?case
    using Cons.IH [of h1 "d @ d1"] Cons.IH [of h1 d1]
    by (simp add: step st del: table_step.simps)
qed

lemma parse_lines_split:
  assumes "fst (parse_lines pre)"
  shows "snd (parse_lines (pre @ l # post)) =
           snd (parse_lines pre) @ snd (table_step (True, []) l)
           @ snd (foldl table_step (fst (table_step (True, []) l), []) post)"
proof -
  obtain d where pre: "parse_lines pre = (True, d)"
    using assms by (cases "parse_lines pre") simp
  obtain h1 d1 where st: "table_step (True, []) l = (h1, d1)"
    by (cases "table_step (True, []) l")
  have step: "table_step (True, d) l = (h1, d @ d1)"
    using table_step_acc [of True d l] st by simp
  have "parse_lines (pre @ l # post) = foldl table_step (h1, d @ d1) post"
    using pre step by (simp add: parse_lines_def del: table_step.simps)
  also have "\<dots> = (fst (foldl table_step (h1, []) post), (d @ d1) @ snd (foldl table_step (h1, []) post))"
    by (rule foldl_table_step_acc)
  finally show ?thesis
    by (simp add: pre st del: table_step.simps)
qed

lemma re_split_empty: "re_split d [] = [[]]"
  by (subst re_split.simps) simp

lemma header_latch: "fst (parse_lines [''Card ID B I N G O''])"
  by code_simp

text \<open>
  Claim C3, as amended. Take a non-blank line that comes after the header latch has fired.
  If the line does not itself match the header pattern, it is split on runs of white space;
  with at least six fields it adds one record, whose identifier is the first field and
  whose columns B, I, N, G, O are the tokens of fields 2 to 6, and with fewer than six
  fields it adds nothing. If the line matches the header pattern it adds nothing, whatever
  the number of its fields. In both cases the records of the other lines are unchanged.
\<close>

theorem data_line_emitted:
  assumes latch: "fst (parse_lines pre)"
    and nonblank: "strip l \<noteq> []"
  shows "(\<not> is_header (strip l) \<longrightarrow>
            snd (parse_lines (pre @ l # post)) =
              snd (parse_lines pre)
              @ (if length (re_split isspace (strip l)) < 6 then []
                 else [\<lparr>card_id = re_split isspace (strip l) ! 0,
                        b_nums = parse_numbers (re_split isspace (strip l) ! 1),
                        i_nums = parse_numbers (re_split isspace (strip l) ! 2),
                        n_nums = parse_numbers (re_split isspace (strip l) ! 3),
                        g_nums = parse_numbers (re_split isspace (strip l) ! 4),
                        o_nums = parse_numbers (re_split isspace (strip l) ! 5)\<rparr>])
              @ snd (foldl table_step (True, []) post))
         \<and> (is_header (strip l) \<longrightarrow>
              snd (parse_lines (pre @ l # post)) =
                snd (parse_lines pre) @ snd (foldl table_step (True, []) post))"
  using nonblank
  by (simp add: parse_lines_split [OF latch] Let_def card_of_parts_def)

text \<open>Instances: a data line of six fields, and a second header line, each followed by
  a short line.\<close>

theorem data_line_emitted_witness:
  "snd (parse_lines [''Card ID B I N G O'', '' 7  1,2 16 31,x 46 61 '', ''8 1 2''])
     = [\<lparr>card_id = ''7'', b_nums = [Some 1, Some 2], i_nums = [Some 16],
         n_nums = [Some 31, None], g_nums = [Some 46], o_nums = [Some 61]\<rparr>]
   \<and> snd (parse_lines [''Card ID B I N G O'', ''CARD 1 2 3 4 5'', ''8 1 2'']) = []"
proof -
  let ?l = "'' 7  1,2 16 31,x 46 61 ''"
  let ?h = "''CARD 1 2 3 4 5''"
  have nb: "strip ?l \<noteq> []" by code_simp
  have nh: "\<not> is_header (strip ?l)" by code_simp
  have f: "re_split isspace (strip ?l) = [''7'', ''1,2'', ''16'', ''31,x'', ''46'', ''61'']"
    by code_simp
  have p: "parse_numbers ''1,2'' = [Some 1, Some 2]" "parse_numbers ''16'' = [Some 16]"
    "parse_numbers ''31,x'' = [Some 31, None]" "parse_numbers ''46'' = [Some 46]"
    "parse_numbers ''61'' = [Some 61]"
    by code_simp+
  have post: "snd (foldl table_step (True, []) [''8 1 2'']) = []"
    by code_simp
  have pre: "snd (parse_lines [''Card ID B I N G O'']) = []"
    by code_simp
  from data_line_emitted [OF header_latch nb, of "[''8 1 2'']"] nh
  have one: "snd (parse_lines ([''Card ID B I N G O''] @ ?l # [''8 1 2'']))
     = [\<lparr>card_id = ''7'', b_nums = [Some 1, Some 2], i_nums = [Some 16],
         n_nums = [Some 31, None], g_nums = [Some 46], o_nums = [Some 61]\<rparr>]"
    by (simp add: f p post pre del: foldl_Cons table_step.simps)
  have nb': "strip ?h \<noteq> []" by code_simp
  have ih: "is_header (strip ?h)" by code_simp
  from data_line_emitted [OF header_latch nb', of "[''8 1 2'']"] ih
  have two: "snd (parse_lines ([''Card ID B I N G O''] @ ?h # [''8 1 2''])) = []"
    by (simp add: post pre del: foldl_Cons table_step.simps)
  from one two show ?thesis by simp
qed

text \<open>
  Claim C3 as the specification states it has every line of at least six fields emit a
  record once the latch has fired. The second line below comes after the header, is not
  blank and has six fields, its identifier being the word \<^verbatim>\<open>card\<close>; it matches the
  header pattern and no record is emitted.
\<close>

theorem header_shaped_line_counterexample:
  "fst (parse_lines [''Card ID B I N G O''])
   \<and> strip ''card 1,2 16 31 46 61'' \<noteq> []
   \<and> length (re_split isspace (strip ''card 1,2 16 31 46 61'')) = 6
   \<and> snd (parse_lines [''Card ID B I N G O'', ''card 1,2 16 31 46 61'']) = []
   \<and> parse_text_table (''Card ID B I N G O'' @ [CHR 0x0A] @ ''card 1,2 16 31 46 61'') = []"
  by code_simp

text \<open>
  Claim C9, as amended. A line after the header latch that does not itself match the
  header pattern and splits into more than six fields adds exactly one record, built from
  its first six fields; the further fields have no effect.
\<close>

theorem extra_fields_ignored:
  assumes latch: "fst (parse_lines pre)"
    and nothdr: "\<not> is_header (strip l)"
    and more: "6 < length (re_split isspace (strip l))"
  shows "snd (parse_lines (pre @ l # post)) =
           snd (parse_lines pre)
           @ [\<lparr>card_id = take 6 (re_split isspace (strip l)) ! 0,
                b_nums = parse_numbers (take 6 (re_split isspace (strip l)) ! 1),
                i_nums = parse_numbers (take 6 (re_split isspace (strip l)) ! 2),
                n_nums = parse_numbers (take 6 (re_split isspace (strip l)) ! 3),
                g_nums = parse_numbers (take 6 (re_split isspace (strip l)) ! 4),
                o_nums = parse_numbers (take 6 (re_split isspace (strip l)) ! 5)\<rparr>]
           @ snd (foldl table_step (True, []) post)"
proof -
  have "strip l \<noteq> []"
    using more by (auto simp: re_split_empty)
  then show ?thesis
    using nothdr more
    by (simp add: parse_lines_split [OF latch] Let_def card_of_parts_def)
qed

text \<open>An instance: a line of eight fields.\<close>

theorem extra_fields_ignored_witness:
  "snd (parse_lines [''Card ID B I N G O'', ''7 1,2 16 31,x 46 61 note 99'', ''8 1 2''])
     = [\<lparr>card_id = ''7'', b_nums = [Some 1, Some 2], i_nums = [Some 16],
         n_nums = [Some 31, None], g_nums = [Some 46], o_nums = [Some 61]\<rparr>]"
proof -
  let ?l = "''7 1,2 16 31,x 46 61 note 99''"
  have nh: "\<not> is_header (strip ?l)" by code_simp
  have f: "re_split isspace (strip ?l)
             = [''7'', ''1,2'', ''16'', ''31,x'', ''46'', ''61'', ''note'', ''99'']"
    by code_simp
  have more: "6 < length (re_split isspace (strip ?l))"
    by (simp add: f)
  have p: "parse_numbers ''1,2'' = [Some 1, Some 2]" "parse_numbers ''16'' = [Some 16]"
    "parse_numbers ''31,x'' = [Some 31, None]" "parse_numbers ''46'' = [Some 46]"
    "parse_numbers ''61'' = [Some 61]"
    by code_simp+
  have post: "snd (foldl table_step (True, []) [''8 1 2'']) = []"
    by code_simp
  have pre: "snd (parse_lines [''Card ID B I N G O'']) = []"
    by code_simp
  from extra_fields_ignored [OF header_latch nh more, of "[''8 1 2'']"]
  show ?thesis
    by (simp add: f p post pre del: foldl_Cons table_step.simps)
qed

text \<open>
  Claim C9 as the specification states it covers every line of more than six fields after
  the header. The second line below has seven fields and begins with the word
  \<^verbatim>\<open>Card\<close>; it matches the header pattern and no record is emitted.
\<close>

theorem extra_fields_header_counterexample:
  "fst (parse_lines [''Card ID B I N G O''])
   \<and> strip ''Card 7 1,2 16 31 46 61'' \<noteq> []
   \<and> length (re_split isspace (strip ''Card 7 1,2 16 31 46 61'')) = 7
   \<and> snd (parse_lines [''Card ID B I N G O'', ''Card 7 1,2 16 31 46 61'']) = []
   \<and> parse_text_table (''Card ID B I N G O'' @ [CHR 0x0A] @ ''Card 7 1,2 16 31 46 61'') = []"
  by code_simp

section \<open>Properties of the duplicate detection\<close>

subsection \<open>The fingerprint map\<close>

text \<open>\<open>build_fingerprints\<close> yields one entry for each distinct fingerprint, in the order
  of first occurrence, holding the members of that fingerprint in batch order.\<close>

lemma set_first_seen: "set (first_seen xs) = set xs"
  by (induction xs) auto

lemma distinct_first_seen: "distinct (first_seen xs)"
  by (induction xs) (auto simp: set_first_seen)

lemma first_seen_snoc:
  "first_seen (xs @ [x]) = (if x \<in> set xs then first_seen xs else first_seen xs @ [x])"
  by (induction xs) auto

lemma members_snoc:
  "members (rs @ [r]) k =
     members rs k @ (if fingerprint_of r = k then [(r_id r, length rs)] else [])"
  by (simp add: members_def enumerate_append_eq)

lemma members_absent:
  "k \<notin> set (map fingerprint_of rs) \<Longrightarrow> members rs k = []"
  by (auto simp: members_def filter_empty_conv in_set_enumerate_eq)

lemma map_snd_filter_enumerate:
  "map snd (filter (\<lambda>p. P (snd p)) (enumerate n xs)) = filter P xs"
  by (induction xs arbitrary: n) simp_all

lemma map_fst_members:
  "map fst (members rs k) = map r_id (filter (\<lambda>r. fingerprint_of r = k) rs)"
proof -
  have "map fst (members rs k)
          = map r_id (map snd (filter (\<lambda>p. fingerprint_of (snd p) = k) (enumerate 0 rs)))"
    by (simp add: members_def case_prod_unfold comp_def)
  then show ?thesis
    by (simp only: map_snd_filter_enumerate [of "\<lambda>r. fingerprint_of r = k" 0 rs])
qed

lemma length_members:
  "length (members rs k) = length (filter (\<lambda>r. fingerprint_of r = k) rs)"
proof -
  have "length (map fst (members rs k)) = length (map r_id (filter (\<lambda>r. fingerprint_of r = k) rs))"
    by (simp only: map_fst_members)
  then show ?thesis by simp
qed

lemma setdefault_append_map:
  assumes "distinct ks"
  shows "setdefault_append (map (\<lambda>k. (k, f k)) ks) k e =
           (if k \<in> set ks
            then map (\<lambda>k'. (k', if k' = k then f k' @ [e] else f k')) ks
            else map (\<lambda>k. (k, f k)) ks @ [(k, [e])])"
  using assms by (induction ks) auto

lemma build_fingerprints_snoc:
  "build_fingerprints (rs @ [r]) =
     setdefault_append (build_fingerprints rs) (fingerprint_of r) (r_id r, length rs)"
  by (simp add: build_fingerprints_def enumerate_append_eq fingerprint_step_def)

lemma build_fingerprints_eq:
  "build_fingerprints rs =
     map (\<lambda>k. (k, members rs k)) (first_seen (map fingerprint_of rs))"
proof (induction rs rule: rev_induct)
  case Nil
  show ?case by (simp add: build_fingerprints_def)
next
  case (snoc r rs)
  let ?ks = "first_seen (map fingerprint_of rs)"
  let ?e = "(r_id r, length rs)"
  have step: "build_fingerprints (rs @ [r]) =
      setdefault_append (map (\<lambda>k. (k, members rs k)) ?ks) (fingerprint_of r) ?e"
    by (simp only: build_fingerprints_snoc snoc.IH)
  show ?case
  proof (cases "fingerprint_of r \<in> set (map fingerprint_of rs)")
    case True
    then have "fingerprint_of r \<in> set ?ks"
      by (simp add: set_first_seen)
    then have "build_fingerprints (rs @ [r]) =
        map (\<lambda>k'. (k', if k' = fingerprint_of r then members rs k' @ [?e] else members rs k')) ?ks"
      by (simp add: step setdefault_append_map [OF distinct_first_seen])
    also have "\<dots> = map (\<lambda>k. (k, members (rs @ [r]) k)) ?ks"
      by (simp add: members_snoc)
    finally show ?thesis
      using True by (simp add: first_seen_snoc)
  next
    case False
    then have notin: "fingerprint_of r \<notin> set ?ks"
      by (simp add: set_first_seen)
    then have "build_fingerprints (rs @ [r]) =
        map (\<lambda>k. (k, members rs k)) ?ks @ [(fingerprint_of r, [?e])]"
      by (simp add: step setdefault_append_map [OF distinct_first_seen])
    moreover have "map (\<lambda>k. (k, members rs k)) ?ks = map (\<lambda>k. (k, members (rs @ [r]) k)) ?ks"
      using notin by (auto simp: members_snoc)
    moreover have "members (rs @ [r]) (fingerprint_of r) = [?e]"
      using False by (simp add: members_snoc members_absent)
    ultimately show ?thesis
      using False by (simp add: first_seen_snoc)
  qed
qed

lemma snd_foldl_group_step:
  "snd (foldl group_step (crs, gs) m) =
     gs @ map (\<lambda>g. map fst (snd g)) (filter (\<lambda>g. 1 < length (snd g)) m)"
  by (induction m arbitrary: crs gs) (auto simp: group_step_def)

text \<open>
  Claim C8. The list of duplicate groups holds one group for each distinct fingerprint
  that at least two cards of the batch share; the groups stand in the order in which these
  fingerprints first occur in the batch, and each group lists the identifiers of its cards
  in batch order.
\<close>

theorem duplicate_groups_order:
  "snd (mark_duplicates rs) =
     map (\<lambda>k. map r_id (filter (\<lambda>r. fingerprint_of r = k) rs))
       (filter (\<lambda>k. 2 \<le> length (filter (\<lambda>r. fingerprint_of r = k) rs))
          (first_seen (map fingerprint_of rs)))"
proof -
  have "snd (mark_duplicates rs) =
      map (\<lambda>g. map fst (snd g))
        (filter (\<lambda>g. 1 < length (snd g))
           (map (\<lambda>k. (k, members rs k)) (first_seen (map fingerprint_of rs))))"
    by (simp add: mark_duplicates_def snd_foldl_group_step build_fingerprints_eq)
  also have "\<dots> = map (\<lambda>k. map fst (members rs k))
        (filter (\<lambda>k. 1 < length (members rs k)) (first_seen (map fingerprint_of rs)))"
    by (simp add: filter_map comp_def)
  also have "\<dots> = map (\<lambda>k. map r_id (filter (\<lambda>r. fingerprint_of r = k) rs))
       (filter (\<lambda>k. 2 \<le> length (filter (\<lambda>r. fingerprint_of r = k) rs))
          (first_seen (map fingerprint_of rs)))"
  proof -
    have "(1 < n) = (2 \<le> n)" for n :: nat
      by arith
    then show ?thesis
      by (simp add: map_fst_members length_members)
  qed
  finally show ?thesis .
qed

text \<open>An instance: five cards with the fingerprints A, B, A, C, B.\<close>

theorem duplicate_groups_order_witness:
  "snd (mark_duplicates
     [\<lparr>r_id = ''1'', r_b = [Some 1], r_i = [], r_n = [], r_g = [], r_o = [],
        r_valid = False, r_msg = ''m1''\<rparr>,
      \<lparr>r_id = ''2'', r_b = [Some 2], r_i = [], r_n = [], r_g = [], r_o = [],
        r_valid = False, r_msg = ''m2''\<rparr>,
      \<lparr>r_id = ''3'', r_b = [Some 1], r_i = [], r_n = [], r_g = [], r_o = [],
        r_valid = False, r_msg = ''m3''\<rparr>,
      \<lparr>r_id = ''4'', r_b = [Some 4], r_i = [], r_n = [], r_g = [], r_o = [],
        r_valid = False, r_msg = ''m4''\<rparr>,
      \<lparr>r_id = ''5'', r_b = [Some 2], r_i = [], r_n = [], r_g = [], r_o = [],
        r_valid = False, r_msg = ''m5''\<rparr>])
   = [[''1'', ''3''], [''2'', ''5'']]"
  by (simp add: duplicate_groups_order fingerprint_of_def)

subsection \<open>The rewritten results\<close>

lemma member_step_marked:
  "member_step id_list crs (cid, idx) = crs[idx := marked id_list cid (crs ! idx)]"
proof -
  have eq: "\<lparr>r_id = r_id old, r_b = r_b old, r_i = r_i old, r_n = r_n old, r_g = r_g old,
             r_o = r_o old, r_valid = False, r_msg = m\<rparr> = old\<lparr>r_valid := False, r_msg := m\<rparr>"
    for old :: card_result and m
    by (cases old) simp
  show ?thesis
    by (simp only: member_step_def marked_def Let_def eq prod.case if_distrib [of "\<lambda>m. (crs ! idx)\<lparr>r_valid := False, r_msg := m\<rparr>"] if_distrib [of "\<lambda>r. crs[idx := r]"])
qed

lemma set_members:
  "(cid, j) \<in> set (members rs k) \<longleftrightarrow>
     j < length rs \<and> fingerprint_of (rs ! j) = k \<and> cid = r_id (rs ! j)"
  by (auto simp: members_def in_set_enumerate_eq image_iff)

lemma distinct_members: "distinct (map snd (members rs k))"
proof -
  have "map snd (members rs k)
          = map fst (filter (\<lambda>p. fingerprint_of (snd p) = k) (enumerate 0 rs))"
    by (simp add: members_def case_prod_unfold comp_def)
  moreover have "distinct (map fst (enumerate 0 rs))"
    by simp
  ultimately show ?thesis
    by (simp add: distinct_map_filter)
qed

lemma foldl_member_step:
  assumes "distinct (map snd ids)" and "\<forall>p\<in>set ids. snd p < length crs"
  shows "length (foldl (member_step ids0) crs ids) = length crs
         \<and> (\<forall>j<length crs.
               foldl (member_step ids0) crs ids ! j =
                 (case find (\<lambda>p. snd p = j) ids of
                    None \<Rightarrow> crs ! j
                  | Some p \<Rightarrow> marked ids0 (fst p) (crs ! j)))"
  using assms
proof (induction ids arbitrary: crs)
  case Nil
  show ?case by simp
next
  case (Cons p ids)
  obtain cid0 j0 where p: "p = (cid0, j0)"
    by (cases p)
  let ?crs1 = "crs[j0 := marked ids0 cid0 (crs ! j0)]"
  have j0: "j0 < length crs"
    using Cons.prems p by simp
  have fresh: "find (\<lambda>q. snd q = j0) ids = None"
    using Cons.prems(1) p by (auto simp: find_None_iff image_iff)
  have ih: "length (foldl (member_step ids0) ?crs1 ids) = length ?crs1
         \<and> (\<forall>j<length ?crs1.
               foldl (member_step ids0) ?crs1 ids ! j =
                 (case find (\<lambda>p. snd p = j) ids of
                    None \<Rightarrow> ?crs1 ! j
                  | Some p \<Rightarrow> marked ids0 (fst p) (?crs1 ! j)))"
    using Cons.prems by (intro Cons.IH) simp_all
  have step: "foldl (member_step ids0) crs (p # ids) = foldl (member_step ids0) ?crs1 ids"
    by (simp add: p member_step_marked)
  show ?case
  proof (intro conjI allI impI)
    show "length (foldl (member_step ids0) crs (p # ids)) = length crs"
      using ih by (simp only: step) simp
  next
    fix j
    assume j: "j < length crs"
    show "foldl (member_step ids0) crs (p # ids) ! j =
            (case find (\<lambda>p. snd p = j) (p # ids) of
               None \<Rightarrow> crs ! j
             | Some p \<Rightarrow> marked ids0 (fst p) (crs ! j))"
    proof (cases "j = j0")
      case True
      then show ?thesis
        using ih j0 fresh by (simp only: step) (simp add: p)
    next
      case False
      then show ?thesis
        using ih j by (simp only: step) (simp add: p split: option.split)
    qed
  qed
qed

lemma find_members:
  assumes "j < length rs"
  shows "find (\<lambda>p. snd p = j) (members rs k) =
           (if fingerprint_of (rs ! j) = k then Some (r_id (rs ! j), j) else None)"
proof (cases "fingerprint_of (rs ! j) = k")
  case True
  then have "(r_id (rs ! j), j) \<in> set (members rs k)"
    using assms by (simp add: set_members)
  then obtain p where f: "find (\<lambda>p. snd p = j) (members rs k) = Some p"
    by (cases "find (\<lambda>p. snd p = j) (members rs k)") (auto simp: find_None_iff)
  obtain cid i where p: "p = (cid, i)"
    by (cases p)
  from f have "snd p = j \<and> p \<in> set (members rs k)"
    by (auto simp: find_Some_iff)
  then have "(cid, i) \<in> set (members rs k)" and "i = j"
    by (auto simp: p)
  then have "cid = r_id (rs ! j)"
    by (simp add: set_members)
  with \<open>i = j\<close> show ?thesis
    using True by (simp add: f p)
next
  case False
  then have "\<forall>p\<in>set (members rs k). snd p \<noteq> j"
    using set_members [of _ j rs k] by auto
  then show ?thesis
    using False by (auto simp: find_None_iff)
qed

lemma group_members_marked:
  assumes "length crs = length rs"
  shows "length (foldl (member_step (members rs k)) crs (members rs k)) = length rs
         \<and> (\<forall>j<length rs.
               foldl (member_step (members rs k)) crs (members rs k) ! j =
                 (if fingerprint_of (rs ! j) = k
                  then marked (members rs k) (r_id (rs ! j)) (crs ! j)
                  else crs ! j))"
proof -
  have "\<forall>p\<in>set (members rs k). snd p < length crs"
    using set_members [of _ _ rs k] assms by auto
  from foldl_member_step [OF distinct_members this, of "members rs k"]
  show ?thesis
    using assms by (simp add: find_members)
qed

lemma foldl_group_step_marked:
  assumes "distinct ks" and "length crs = length rs"
  shows "length (fst (foldl group_step (crs, gs) (map (\<lambda>k. (k, members rs k)) ks))) = length rs
         \<and> (\<forall>j<length rs.
               fst (foldl group_step (crs, gs) (map (\<lambda>k. (k, members rs k)) ks)) ! j =
                 (if fingerprint_of (rs ! j) \<in> set ks
                     \<and> 1 < length (members rs (fingerprint_of (rs ! j)))
                  then marked (members rs (fingerprint_of (rs ! j))) (r_id (rs ! j)) (crs ! j)
                  else crs ! j))"
  using assms
proof (induction ks arbitrary: crs gs)
  case Nil
  then show ?case by simp
next
  case (Cons k ks)
  let ?crs1 = "fst (group_step (crs, gs) (k, members rs k))"
  let ?gs1 = "snd (group_step (crs, gs) (k, members rs k))"
  have crs1: "length ?crs1 = length rs
         \<and> (\<forall>j<length rs. ?crs1 ! j =
                 (if fingerprint_of (rs ! j) = k \<and> 1 < length (members rs k)
                  then marked (members rs k) (r_id (rs ! j)) (crs ! j)
                  else crs ! j))"
    using group_members_marked [OF Cons.prems(2), of k] Cons.prems(2)
    by (simp add: group_step_def)
  have dist: "distinct ks" and notin: "k \<notin> set ks"
    using Cons.prems(1) by simp_all
  have len1: "length ?crs1 = length rs"
    using crs1 by simp
  note ih = Cons.IH [OF dist len1, of ?gs1]
  have unfold: "foldl group_step (crs, gs) (map (\<lambda>k. (k, members rs k)) (k # ks))
      = foldl group_step (?crs1, ?gs1) (map (\<lambda>k. (k, members rs k)) ks)"
    by simp
  show ?case
  proof (intro conjI allI impI)
    show "length (fst (foldl group_step (crs, gs) (map (\<lambda>k. (k, members rs k)) (k # ks))))
            = length rs"
      using ih by (simp only: unfold)
  next
    fix j
    assume j: "j < length rs"
    show "fst (foldl group_step (crs, gs) (map (\<lambda>k. (k, members rs k)) (k # ks))) ! j =
            (if fingerprint_of (rs ! j) \<in> set (k # ks)
                \<and> 1 < length (members rs (fingerprint_of (rs ! j)))
             then marked (members rs (fingerprint_of (rs ! j))) (r_id (rs ! j)) (crs ! j)
             else crs ! j)"
    proof (cases "fingerprint_of (rs ! j) = k")
      case True
      then have "fingerprint_of (rs ! j) \<notin> set ks"
        using notin by simp
      then show ?thesis
        using ih crs1 j True by (simp only: unfold) simp
    next
      case False
      then show ?thesis
        using ih crs1 j by (simp only: unfold) simp
    qed
  qed
qed

lemma mark_duplicates_nth:
  assumes "j < length rs"
  shows "length (fst (mark_duplicates rs)) = length rs"
    and "fst (mark_duplicates rs) ! j =
           (if 1 < length (members rs (fingerprint_of (rs ! j)))
            then marked (members rs (fingerprint_of (rs ! j))) (r_id (rs ! j)) (rs ! j)
            else rs ! j)"
proof -
  have in_ks: "fingerprint_of (rs ! j) \<in> set (first_seen (map fingerprint_of rs))"
    using assms by (simp add: set_first_seen)
  note m = foldl_group_step_marked [OF distinct_first_seen refl, of rs "[]"]
  from m show "length (fst (mark_duplicates rs)) = length rs"
    by (simp add: mark_duplicates_def build_fingerprints_eq)
  from m assms in_ks show "fst (mark_duplicates rs) ! j =
           (if 1 < length (members rs (fingerprint_of (rs ! j)))
            then marked (members rs (fingerprint_of (rs ! j))) (r_id (rs ! j)) (rs ! j)
            else rs ! j)"
    by (simp add: mark_duplicates_def build_fingerprints_eq)
qed

lemma other_ids_members:
  "other_ids (members rs k) cid =
     filter (\<lambda>c. c \<noteq> cid) (map r_id (filter (\<lambda>r. fingerprint_of r = k) rs))"
proof -
  have "other_ids (members rs k) cid = filter (\<lambda>c. c \<noteq> cid) (map fst (members rs k))"
    by (simp add: other_ids_def filter_map comp_def case_prod_unfold)
  then show ?thesis
    by (simp only: map_fst_members)
qed

text \<open>Every position stored in \<^verbatim>\<open>fingerprint_map\<close> is a position of
  \<^verbatim>\<open>card_results\<close>, and the list keeps its length, so the read \<^verbatim>\<open>card_results[idx]\<close>
  never fails.\<close>

lemma build_fingerprints_in_range:
  assumes "(k, ids) \<in> set (build_fingerprints rs)" and "(cid, idx) \<in> set ids"
  shows "idx < length rs"
  using assms by (auto simp: build_fingerprints_eq set_members)

text \<open>
  What the deduplicator does to a card whose fingerprint at least two cards of the batch
  share: it keeps the identifier and the five token sequences, clears the validity flag,
  and rewrites the message, \<^verbatim>\<open>Valid but Duplicate of card(s)\<close> and a list of
  identifiers if the card was valid, the old message, \<^verbatim>\<open>; Duplicate of card(s)\<close> and
  that list if it was not. The list that the source builds holds the identifiers of the
  group, in batch order, that differ from the card's own identifier.
\<close>

lemma duplicate_member_rewritten:
  assumes j: "j < length rs"
    and dup: "2 \<le> length (filter (\<lambda>r. fingerprint_of r = fingerprint_of (rs ! j)) rs)"
  shows "length (fst (mark_duplicates rs)) = length rs
     \<and> r_id (fst (mark_duplicates rs) ! j) = r_id (rs ! j)
     \<and> r_b (fst (mark_duplicates rs) ! j) = r_b (rs ! j)
     \<and> r_i (fst (mark_duplicates rs) ! j) = r_i (rs ! j)
     \<and> r_n (fst (mark_duplicates rs) ! j) = r_n (rs ! j)
     \<and> r_g (fst (mark_duplicates rs) ! j) = r_g (rs ! j)
     \<and> r_o (fst (mark_duplicates rs) ! j) = r_o (rs ! j)
     \<and> \<not> r_valid (fst (mark_duplicates rs) ! j)
     \<and> r_msg (fst (mark_duplicates rs) ! j) =
         (if r_valid (rs ! j)
          then ''Valid but Duplicate of card(s) ''
               @ join '', '' (filter (\<lambda>c. c \<noteq> r_id (rs ! j))
                   (map r_id (filter (\<lambda>r. fingerprint_of r = fingerprint_of (rs ! j)) rs)))
          else r_msg (rs ! j) @ ''; Duplicate of card(s) ''
               @ join '', '' (filter (\<lambda>c. c \<noteq> r_id (rs ! j))
                   (map r_id (filter (\<lambda>r. fingerprint_of r = fingerprint_of (rs ! j)) rs))))"
proof -
  let ?k = "fingerprint_of (rs ! j)"
  have "1 < length (members rs ?k)"
    using dup by (simp add: length_members)
  then have res: "fst (mark_duplicates rs) ! j = marked (members rs ?k) (r_id (rs ! j)) (rs ! j)"
    using mark_duplicates_nth(2) [OF j] by simp
  have len: "length (fst (mark_duplicates rs)) = length rs"
    by (rule mark_duplicates_nth(1) [OF j])
  show ?thesis
    by (simp add: res len marked_def duplicate_msg_def other_ids_members)
qed

text \<open>
  When no other card of the group carries the card's own identifier, that list is the
  list of the specification, the identifiers of the other members.
\<close>

lemma other_member_ids_filter:
  assumes j: "j < length rs"
    and uniq: "\<forall>i<length rs. i \<noteq> j \<and> fingerprint_of (rs ! i) = fingerprint_of (rs ! j)
                 \<longrightarrow> r_id (rs ! i) \<noteq> r_id (rs ! j)"
  shows "filter (\<lambda>c. c \<noteq> r_id (rs ! j))
           (map r_id (filter (\<lambda>r. fingerprint_of r = fingerprint_of (rs ! j)) rs))
         = other_member_ids rs j"
proof -
  let ?k = "fingerprint_of (rs ! j)"
  let ?P = "\<lambda>r. fingerprint_of r = ?k \<and> r_id r \<noteq> r_id (rs ! j)"
  have "filter (\<lambda>c. c \<noteq> r_id (rs ! j)) (map r_id (filter (\<lambda>r. fingerprint_of r = ?k) rs))
          = map r_id (filter ?P rs)"
    by (simp add: filter_map comp_def)
  also have "\<dots> = map r_id (map snd (filter (\<lambda>p. ?P (snd p)) (enumerate 0 rs)))"
    by (simp only: map_snd_filter_enumerate [of ?P 0 rs])
  also have "filter (\<lambda>p. ?P (snd p)) (enumerate 0 rs)
          = filter (\<lambda>p. fst p \<noteq> j \<and> fingerprint_of (snd p) = ?k) (enumerate 0 rs)"
  proof (rule filter_cong [OF refl])
    fix p
    assume "p \<in> set (enumerate 0 rs)"
    then have p: "fst p < length rs" "snd p = rs ! fst p"
      by (auto simp: in_set_enumerate_eq)
    show "?P (snd p) = (fst p \<noteq> j \<and> fingerprint_of (snd p) = ?k)"
      using p uniq by auto
  qed
  finally show ?thesis
    by (simp add: other_member_ids_def comp_def)
qed

subsection \<open>Members with the same identifier\<close>

text \<open>Three cards of one content, two of which carry the identifier 1: neither of the
  two is told of the other.\<close>

lemma same_identifier_results:
  "mark_duplicates
     [\<lparr>r_id = ''1'', r_b = [Some 1], r_i = [], r_n = [], r_g = [], r_o = [],
        r_valid = False, r_msg = ''a''\<rparr>,
      \<lparr>r_id = ''1'', r_b = [Some 1], r_i = [], r_n = [], r_g = [], r_o = [],
        r_valid = False, r_msg = ''b''\<rparr>,
      \<lparr>r_id = ''2'', r_b = [Some 1], r_i = [], r_n = [], r_g = [], r_o = [],
        r_valid = False, r_msg = ''c''\<rparr>]
   = ([\<lparr>r_id = ''1'', r_b = [Some 1], r_i = [], r_n = [], r_g = [], r_o = [],
        r_valid = False, r_msg = ''a; Duplicate of card(s) 2''\<rparr>,
      \<lparr>r_id = ''1'', r_b = [Some 1], r_i = [], r_n = [], r_g = [], r_o = [],
        r_valid = False, r_msg = ''b; Duplicate of card(s) 2''\<rparr>,
      \<lparr>r_id = ''2'', r_b = [Some 1], r_i = [], r_n = [], r_g = [], r_o = [],
        r_valid = False, r_msg = ''c; Duplicate of card(s) 1, 1''\<rparr>],
      [[''1'', ''1'', ''2'']])"
  by (simp add: mark_duplicates_def build_fingerprints_def fingerprint_step_def
        fingerprint_of_def group_step_def member_step_def duplicate_msg_def other_ids_def
        enumerate_eq_zip upt_rec)


text \<open>
  Claim C2 asks that the duplicate message of a member list the identifiers of all other
  members of its group, also of those that carry the member's own identifier. The source
  builds the list with the test \<^verbatim>\<open>cid != card_id\<close>, which drops every member with
  that identifier. On the text below, two identical lines with the identifier 1, the
  handler therefore reports for each card a message that names no card at all, where the
  claim asks for the identifier 1 of the other card.
\<close>

theorem same_identifier_not_listed:
  "validate (''Card ID B I N G O'' @ [CHR 0x0A]
      @ ''1 1,2,3,4,5 16,17,18,19,20 31,32,0,34,35 46,47,48,49,50 61,62,63,64,65'' @ [CHR 0x0A]
      @ ''1 1,2,3,4,5 16,17,18,19,20 31,32,0,34,35 46,47,48,49,50 61,62,63,64,65'')
   = Page [''Valid but Duplicate of card(s) '', ''Valid but Duplicate of card(s) ''] 0
       [[''1'', ''1'']]"
  by code_simp

lemma repeated_identifier_results:
  "map result_of (parse_text_table repeated_identifier_text) =
     [\<lparr>r_id = ''1'', r_b = [Some 1, Some 2, Some 3, Some 4, Some 5],
        r_i = [Some 16, Some 17, Some 18, Some 19, Some 20],
        r_n = [Some 31, Some 32, Some 0, Some 34, Some 35],
        r_g = [Some 46, Some 47, Some 48, Some 49, Some 50],
        r_o = [Some 61, Some 62, Some 63, Some 64, Some 65],
        r_valid = True, r_msg = ''Card 1: Valid''\<rparr>,
      \<lparr>r_id = ''1'', r_b = [Some 1, Some 2, Some 3, Some 4, Some 5],
        r_i = [Some 16, Some 17, Some 18, Some 19, Some 20],
        r_n = [Some 31, Some 32, Some 0, Some 34, Some 35],
        r_g = [Some 46, Some 47, Some 48, Some 49, Some 50],
        r_o = [Some 61, Some 62, Some 63, Some 64, Some 65],
        r_valid = True, r_msg = ''Card 1: Valid''\<rparr>]"
  unfolding repeated_identifier_text_def by code_simp

text \<open>
  Claim C5 asks that a valid member of a duplicate group get the message
  \<^verbatim>\<open>Valid but Duplicate of card(s)\<close> followed by the identifiers of the other members of
  its group. On the results of the two identical lines with the identifier 1, the other
  member of the first card has the identifier 1, and the message that the deduplicator
  gives the first card names no card. Flag, identifier and token sequences are as the
  claim says. The cause is the test \<^verbatim>\<open>cid != card_id\<close> of claim C2.
\<close>

theorem duplicate_message_omits_member:
  "other_member_ids (map result_of (parse_text_table repeated_identifier_text)) 0 = [''1'']
   \<and> fst (mark_duplicates (map result_of (parse_text_table repeated_identifier_text))) ! 0 =
       \<lparr>r_id = ''1'', r_b = [Some 1, Some 2, Some 3, Some 4, Some 5],
        r_i = [Some 16, Some 17, Some 18, Some 19, Some 20],
        r_n = [Some 31, Some 32, Some 0, Some 34, Some 35],
        r_g = [Some 46, Some 47, Some 48, Some 49, Some 50],
        r_o = [Some 61, Some 62, Some 63, Some 64, Some 65],
        r_valid = False, r_msg = ''Valid but Duplicate of card(s) ''\<rparr>"
  unfolding repeated_identifier_results
  by (simp add: other_member_ids_def mark_duplicates_def build_fingerprints_def
        fingerprint_step_def fingerprint_of_def group_step_def member_step_def
        duplicate_msg_def other_ids_def enumerate_eq_zip upt_rec)

end
